theory Spec2Isabelle
  imports Main "HOL-Library.List_Lexorder"
begin

section \<open>Array types, addresses and the store\<close>

text \<open>
  A built-in array type \<open>T[E1][E2]...[ER]\<close> is the list of its extents, outermost first;
  the empty list is the scalar element type \<open>T\<close> itself. The traits of \<open>traits.hpp\<close>
  and of the standard library that the wrapper consumes are functions on that list.
  Storage is a store of scalar elements; an address counts scalars, so a pointer to an
  object of type \<open>T\<close> advances by \<open>array_size T\<close>. An lvalue reference to a scalar or to a
  (sub)array is the address of its first scalar; the referred-to type is known statically
  and is passed beside it. The store has no bounds: the wrapper does not own the array it
  refers to and, \<open>at\<close> apart, checks nothing; an access outside the array is undefined in
  the source and an ordinary address here.
\<close>

type_synonym array_type = "nat list"
type_synonym addr = nat
type_synonym 'v heap = "addr \<Rightarrow> 'v"

definition rank :: "array_type \<Rightarrow> nat" where
  "rank A = length A"

definition extent :: "array_type \<Rightarrow> nat" where
  "extent A = (case A of [] \<Rightarrow> 0 | n # ds \<Rightarrow> n)"

definition remove_extent :: "array_type \<Rightarrow> array_type" where
  "remove_extent A = (case A of [] \<Rightarrow> [] | n # ds \<Rightarrow> ds)"

fun array_size :: "array_type \<Rightarrow> nat" where
  "array_size [] = 1"
| "array_size (n # ds) = array_size ds * n"

text \<open>
  The \<open>requires\<close> clause of the class template and of its free operators,
  \<open>std::is_array_v<A> && std::extent_v<A> != 0\<close>. On the header's toolchain
  \<open>std::is_array_v\<close> holds of no array type of \<open>2 ^ 31\<close> rows or more; the model takes that
  bound as part of the clause, so a wrapper is formed only over an array whose outermost
  extent is below it.
\<close>

definition is_array_nd :: "array_type \<Rightarrow> bool" where
  "is_array_nd A = (rank A \<noteq> 0 \<and> extent A \<noteq> 0 \<and> extent A < 2 ^ 31)"

text \<open>\<open>p[I]\<close> for a pointer \<open>p\<close> to objects of type \<open>T\<close>.\<close>

definition ptr_index :: "array_type \<Rightarrow> addr \<Rightarrow> nat \<Rightarrow> addr" where
  "ptr_index T p I = p + I * array_size T"

section \<open>The standard algorithms the wrapper calls\<close>

text \<open>
  \<open>std::fill_n\<close>, \<open>std::copy\<close>, \<open>std::swap\<close>, \<open>std::swap_ranges\<close> and
  \<open>std::lexicographical_compare\<close> by the effects the standard gives for them: one element
  after the other, front to back, each step reading the store the previous step left, so that
  a source range that is the destination itself (self-assignment and self-swap, which the
  tests exercise) is covered. A range is its first address and its length.
\<close>

fun fill_n :: "addr \<Rightarrow> nat \<Rightarrow> 'v \<Rightarrow> 'v heap \<Rightarrow> 'v heap" where
  "fill_n first 0 v s = s"
| "fill_n first (Suc k) v s = fill_n (first + 1) k v (s(first := v))"

fun std_copy :: "addr \<Rightarrow> nat \<Rightarrow> addr \<Rightarrow> 'v heap \<Rightarrow> 'v heap" where
  "std_copy first 0 d_first s = s"
| "std_copy first (Suc k) d_first s = std_copy (first + 1) k (d_first + 1) (s(d_first := s first))"

text \<open>
  \<open>std::swap\<close> of two scalars moves through a temporary; of two arrays \<open>T[N]\<close> it is
  \<open>swap_ranges\<close> over their elements, which swaps each pair with \<open>std::swap\<close> again.
\<close>

fun std_swap :: "array_type \<Rightarrow> addr \<Rightarrow> addr \<Rightarrow> 'v heap \<Rightarrow> 'v heap"
  and swap_ranges :: "array_type \<Rightarrow> addr \<Rightarrow> nat \<Rightarrow> addr \<Rightarrow> 'v heap \<Rightarrow> 'v heap" where
  "std_swap [] x y s = (let tmp = s x; s1 = s(x := s y) in s1(y := tmp))"
| "std_swap (n # ds) x y s = swap_ranges ds x n y s"
| "swap_ranges T first1 0 first2 s = s"
| "swap_ranges T first1 (Suc k) first2 s =
     swap_ranges T (first1 + array_size T) k (first2 + array_size T) (std_swap T first1 first2 s)"

fun lexicographical_compare :: "addr \<Rightarrow> nat \<Rightarrow> addr \<Rightarrow> nat \<Rightarrow> ('v::linorder) heap \<Rightarrow> bool" where
  "lexicographical_compare first1 0 first2 n2 s = (n2 \<noteq> 0)"
| "lexicographical_compare first1 (Suc n1) first2 0 s = False"
| "lexicographical_compare first1 (Suc n1) first2 (Suc n2) s =
     (if s first1 < s first2 then True
      else if s first2 < s first1 then False
      else lexicographical_compare (first1 + 1) n1 (first2 + 1) n2 s)"

section \<open>Loops counted by an \<open>unsigned\<close>\<close>

text \<open>
  The recursive branches of \<open>fill\<close>, \<open>operator=\<close>, \<open>operator==\<close> and \<open>operator<\<close> count
  the outermost dimension with \<open>for (unsigned i=0; i<extent; ++i)\<close>. On the platforms the
  header is written for (GCC with \<open>-fconcepts\<close>) \<open>unsigned\<close> has 32 bits and the extent, a
  \<open>size_t\<close> or \<open>ptrdiff_t\<close>, has 64: \<open>++i\<close> wraps at \<open>2 ^ 32\<close> and the comparison is made
  in the wider type. A loop that does not return has the value \<open>None\<close>.
\<close>

definition unsigned_incr :: "nat \<Rightarrow> nat" where
  "unsigned_incr i = (i + 1) mod 2 ^ 32"

partial_function (option) for_unsigned ::
  "nat \<Rightarrow> (nat \<Rightarrow> 's \<Rightarrow> 's option) \<Rightarrow> nat \<Rightarrow> 's \<Rightarrow> 's option" where
  "for_unsigned n body i s =
     (if i < n then Option.bind (body i s) (for_unsigned n body (unsigned_incr i))
      else Some s)"

text \<open>\<open>for (...) if (!(body i)) return false; return true;\<close>\<close>

partial_function (option) eq_loop :: "nat \<Rightarrow> (nat \<Rightarrow> bool option) \<Rightarrow> nat \<Rightarrow> bool option" where
  "eq_loop n body i =
     (if i < n
      then Option.bind (body i)
             (\<lambda>b. if \<not> b then Some False else eq_loop n body (unsigned_incr i))
      else Some True)"

text \<open>\<open>for (...) if (lt i) return true; else if (gt i) return false; return false;\<close>\<close>

partial_function (option) less_loop ::
  "nat \<Rightarrow> (nat \<Rightarrow> bool option) \<Rightarrow> (nat \<Rightarrow> bool option) \<Rightarrow> nat \<Rightarrow> bool option" where
  "less_loop n lt gt i =
     (if i < n
      then Option.bind (lt i)
             (\<lambda>b. if b then Some True
                  else Option.bind (gt i)
                         (\<lambda>c. if c then Some False else less_loop n lt gt (unsigned_incr i)))
      else Some False)"

declare for_unsigned.simps [code]
declare eq_loop.simps [code]
declare less_loop.simps [code]

section \<open>The wrapper\<close>

text \<open>
  \<open>array_nd_ref<A>\<close> has one field, the pointer \<open>a\<close> to the first element of the outermost
  dimension; the array type \<open>A\<close> is a template parameter and is passed to every operation.
  A member function takes the wrapper it is called on and the store and returns both, as the
  call leaves them.
\<close>

record array_nd_ref =
  a :: addr

datatype error = out_of_range

text \<open>\<open>operator[]\<close>: \<open>return a[I]\<close>, a reference to the element or built-in subarray.\<close>

definition subscript :: "array_type \<Rightarrow> array_nd_ref \<Rightarrow> nat \<Rightarrow> addr" where
  "subscript A w I = ptr_index (remove_extent A) (a w) I"

text \<open>
  \<open>operator()\<close> chooses at compile time: for rank 1 \<open>return a[I]\<close>, otherwise
  \<open>return ::array_nd_ref{a[I]}\<close>, a wrapper constructed from the decayed subarray.
\<close>

datatype call_result = element addr | wrapped array_nd_ref

definition call_element :: "array_type \<Rightarrow> array_nd_ref \<Rightarrow> nat \<Rightarrow> addr" where
  "call_element A w I = ptr_index (remove_extent A) (a w) I"

definition call_wrapped :: "array_type \<Rightarrow> array_nd_ref \<Rightarrow> nat \<Rightarrow> array_nd_ref" where
  "call_wrapped A w I = \<lparr>a = ptr_index (remove_extent A) (a w) I\<rparr>"

definition call :: "array_type \<Rightarrow> array_nd_ref \<Rightarrow> nat \<Rightarrow> call_result" where
  "call A w I = (if rank A = 1 then element (call_element A w I) else wrapped (call_wrapped A w I))"

definition at :: "array_type \<Rightarrow> array_nd_ref \<Rightarrow> nat \<Rightarrow> error + addr" where
  "at A w I = (if I \<ge> extent A then Inl out_of_range else Inr (ptr_index (remove_extent A) (a w) I))"

text \<open>\<open>get<I>\<close> (its \<open>requires I < extent\<close> is checked by the compiler): \<open>return a[I]\<close>
  through the wrapper's \<open>operator[]\<close>.\<close>

definition get :: "nat \<Rightarrow> array_type \<Rightarrow> array_nd_ref \<Rightarrow> addr" where
  "get I A w = subscript A w I"

text \<open>
  \<open>fill\<close>: the equations are the two branches of \<open>if constexpr (rank == 1)\<close>, the recursive
  one first; the last is a type that is no array, on which the loop of the second branch
  would run \<open>extent = 0\<close> times.
\<close>

fun fill :: "array_type \<Rightarrow> array_nd_ref \<Rightarrow> 'v \<Rightarrow> 'v heap \<Rightarrow> (array_nd_ref \<times> 'v heap) option" where
  "fill (n # m # ds) w e s =
     map_option (Pair w)
       (for_unsigned n
          (\<lambda>i s'. map_option snd (fill (m # ds) (call_wrapped (n # m # ds) w i) e s')) 0 s)"
| "fill [n] w e s = Some (w, fill_n (a w) n e s)"
| "fill [] w e s = Some (w, s)"

text \<open>\<open>operator=(array_type const& rhs)\<close>: \<open>rhs\<close> is the address of the source array, which
  may be the referred-to array itself; the result is \<open>*this\<close>.\<close>

fun assign :: "array_type \<Rightarrow> array_nd_ref \<Rightarrow> addr \<Rightarrow> 'v heap \<Rightarrow> (array_nd_ref \<times> 'v heap) option" where
  "assign (n # m # ds) w rhs s =
     map_option (Pair w)
       (for_unsigned n
          (\<lambda>i s'. map_option snd
             (assign (m # ds) (call_wrapped (n # m # ds) w i) (ptr_index (m # ds) rhs i) s')) 0 s)"
| "assign [n] w rhs s = Some (w, std_copy rhs n (a w) s)"
| "assign [] w rhs s = Some (w, s)"

text \<open>\<open>swap(A& b)\<close>: \<open>std::swap_ranges(a, a+extent, b)\<close>.\<close>

definition swap_array :: "array_type \<Rightarrow> array_nd_ref \<Rightarrow> addr \<Rightarrow> 'v heap \<Rightarrow> array_nd_ref \<times> 'v heap" where
  "swap_array A w b s = (w, swap_ranges (remove_extent A) (a w) (extent A) b s)"

text \<open>
  \<open>swap(array_nd_ref b)\<close>: the parameter is passed by value, so \<open>b\<close> is a copy of the
  caller's argument; \<open>std::swap(a, b.a)\<close> exchanges the member with the copy's, and the copy
  ends with the call. The result is the wrapper called on and the caller's argument, as the
  call leaves them.
\<close>

definition swap_wrapper :: "array_nd_ref \<Rightarrow> array_nd_ref \<Rightarrow> array_nd_ref \<times> array_nd_ref" where
  "swap_wrapper this y =
     (let b = y;
          tmp = a this;
          this' = this\<lparr>a := a b\<rparr>;
          b' = b\<lparr>a := tmp\<rparr>
      in (this', y))"

text \<open>The free \<open>swap(array_nd_ref<A> x, array_nd_ref<A> y)\<close> takes both by value and calls
  \<open>x.swap(y)\<close> on the copies.\<close>

definition swap :: "array_nd_ref \<Rightarrow> array_nd_ref \<Rightarrow> array_nd_ref \<times> array_nd_ref" where
  "swap x0 y0 = (let x = x0; y = y0; (x', y') = swap_wrapper x y in (x0, y0))"

text \<open>The free \<open>swap(array_nd_ref<A> x, A& y)\<close> and \<open>swap(A& x, array_nd_ref<A> y)\<close>.\<close>

definition swap_ref_array :: "array_type \<Rightarrow> array_nd_ref \<Rightarrow> addr \<Rightarrow> 'v heap \<Rightarrow> 'v heap" where
  "swap_ref_array A x y s = snd (swap_array A x y s)"

definition swap_array_ref :: "array_type \<Rightarrow> addr \<Rightarrow> array_nd_ref \<Rightarrow> 'v heap \<Rightarrow> 'v heap" where
  "swap_array_ref A x y s = snd (swap_array A y x s)"

text \<open>
  \<open>operator==\<close> on two wrappers. Rank 1 is the loop
  \<open>for (size_t i=0; i != x.size(); ++i) if (x(i) != y(i)) return false; return true;\<close>
  whose counter has the type of the extent.
\<close>

fun eq_rank1 :: "array_type \<Rightarrow> array_nd_ref \<Rightarrow> array_nd_ref \<Rightarrow> 'v heap \<Rightarrow> nat \<Rightarrow> nat \<Rightarrow> bool" where
  "eq_rank1 A x y s i 0 = True"
| "eq_rank1 A x y s i (Suc k) =
     (if s (call_element A x i) \<noteq> s (call_element A y i) then False
      else eq_rank1 A x y s (i + 1) k)"

fun operator_eq :: "array_type \<Rightarrow> array_nd_ref \<Rightarrow> array_nd_ref \<Rightarrow> 'v heap \<Rightarrow> bool option" where
  "operator_eq (n # m # ds) x y s =
     eq_loop n
       (\<lambda>i. operator_eq (m # ds) (call_wrapped (n # m # ds) x i) (call_wrapped (n # m # ds) y i) s) 0"
| "operator_eq [n] x y s = Some (eq_rank1 [n] x y s 0 (extent [n]))"
| "operator_eq [] x y s = Some True"

definition operator_neq :: "array_type \<Rightarrow> array_nd_ref \<Rightarrow> array_nd_ref \<Rightarrow> 'v heap \<Rightarrow> bool option" where
  "operator_neq A x y s = map_option Not (operator_eq A x y s)"

text \<open>The member \<open>operator==(A const& y)\<close>: \<open>*this == array_nd_ref<A const>{y}\<close>.\<close>

definition member_eq :: "array_type \<Rightarrow> array_nd_ref \<Rightarrow> addr \<Rightarrow> 'v heap \<Rightarrow> bool option" where
  "member_eq A w y s = operator_eq A w \<lparr>a = y\<rparr> s"

definition member_neq :: "array_type \<Rightarrow> array_nd_ref \<Rightarrow> addr \<Rightarrow> 'v heap \<Rightarrow> bool option" where
  "member_neq A w y s = map_option Not (member_eq A w y s)"

text \<open>\<open>operator<\<close> on two wrappers; \<open>x(i) > y(i)\<close> is \<open>operator>\<close>, which returns \<open>y < x\<close>.\<close>

fun operator_less :: "array_type \<Rightarrow> array_nd_ref \<Rightarrow> array_nd_ref \<Rightarrow> ('v::linorder) heap \<Rightarrow> bool option"
  and operator_greater :: "array_type \<Rightarrow> array_nd_ref \<Rightarrow> array_nd_ref \<Rightarrow> 'v heap \<Rightarrow> bool option" where
  "operator_less (n # m # ds) x y s =
     less_loop n
       (\<lambda>i. operator_less (m # ds) (call_wrapped (n # m # ds) x i) (call_wrapped (n # m # ds) y i) s)
       (\<lambda>i. operator_greater (m # ds) (call_wrapped (n # m # ds) x i) (call_wrapped (n # m # ds) y i) s) 0"
| "operator_less [n] x y s =
     Some (lexicographical_compare (a x) (extent [n]) (a y) (extent [n]) s)"
| "operator_less [] x y s = Some False"
| "operator_greater A x y s = operator_less A y x s"

section \<open>Braced initialisers and temporaries\<close>

text \<open>
  A right-hand side written as a braced list, as in \<open>array_nd_ref{b} = {{1}}\<close>, binds the
  parameter \<open>array_type const& rhs\<close> of \<open>operator=\<close> to a temporary array that the
  language aggregate-initialises from the list: the initialisers given fill the leading
  elements, every element without an initialiser is value-initialised (zero for a scalar), and
  more initialisers than elements do not compile. Every subarray has braces of its own here
  (brace elision is left out); \<open>None\<close> is a list that is ill-formed for the type or outside
  this fragment. \<open>materialize\<close> places the temporary's scalars in the store at the address
  it is given.
\<close>

datatype 'v init = Val 'v | Braces "'v init list"

fun aggregate_init :: "array_type \<Rightarrow> ('v::zero) init \<Rightarrow> 'v list option"
  and aggregate_elems :: "array_type \<Rightarrow> nat \<Rightarrow> 'v init list \<Rightarrow> 'v list option" where
  "aggregate_init [] (Val v) = Some [v]"
| "aggregate_init [] (Braces []) = Some [0]"
| "aggregate_init [] (Braces [Val v]) = Some [v]"
| "aggregate_init [] (Braces ls) = None"
| "aggregate_init (n # ds) (Val v) = None"
| "aggregate_init (n # ds) (Braces ls) = aggregate_elems ds n ls"
| "aggregate_elems T k [] = Some (replicate (k * array_size T) 0)"
| "aggregate_elems T 0 (l # ls) = None"
| "aggregate_elems T (Suc k) (l # ls) =
     (case aggregate_init T l of
        None \<Rightarrow> None
      | Some vs \<Rightarrow> map_option ((@) vs) (aggregate_elems T k ls))"

fun materialize :: "addr \<Rightarrow> 'v list \<Rightarrow> 'v heap \<Rightarrow> 'v heap" where
  "materialize t [] s = s"
| "materialize t (v # vs) s = materialize (t + 1) vs (s(t := v))"

section \<open>The sliding-window test\<close>

text \<open>
  The block of \<open>main\<close> that slides an \<open>array_nd_ref<int[N][N]>\<close> over \<open>int Ns[4][N]{}\<close>:
  the window at offset \<open>i\<close> is constructed from \<open>&Ns[i]\<close> and filled with \<open>i\<close>; the
  block ends by comparing \<open>Ns\<close> with the literal \<open>{{0,0},{1,1},{2,2},{2,2}}\<close>, whose
  temporary is at \<open>tmp\<close>. The result is the value of \<open>check\<close> and the final store.
\<close>

definition sliding_window_test :: "addr \<Rightarrow> addr \<Rightarrow> int heap \<Rightarrow> (bool \<times> int heap) option" where
  "sliding_window_test Ns tmp s =
     (let N = 2;
          Ns_size = extent [4, N];
          winmax = Ns_size - N + 1
      in case aggregate_init [4, N] (Braces []) of
           None \<Rightarrow> None
         | Some zeros \<Rightarrow>
             (case for_unsigned winmax
                     (\<lambda>i s'. map_option snd (fill [N, N] \<lparr>a = ptr_index [N] Ns i\<rparr> (int i) s'))
                     0 (materialize Ns zeros s) of
                None \<Rightarrow> None
              | Some s1 \<Rightarrow>
                  (case aggregate_init [4, N]
                          (Braces [Braces [Val 0, Val 0], Braces [Val 1, Val 1],
                                   Braces [Val 2, Val 2], Braces [Val 2, Val 2]]) of
                     None \<Rightarrow> None
                   | Some vs \<Rightarrow>
                       map_option (\<lambda>check. (check, materialize tmp vs s1))
                         (member_eq [4, N] \<lparr>a = Ns\<rparr> tmp (materialize tmp vs s1)))))"

section \<open>Notions used to state the properties\<close>

text \<open>
  The recursive branches of \<open>fill\<close>, \<open>operator=\<close>, \<open>operator==\<close> and \<open>operator<\<close> form,
  through \<open>operator()\<close>, a wrapper over each subarray type down to rank 1, and each of them
  is under the \<open>requires\<close> clause: these are the array types on which the operations of a
  wrapper exist.
\<close>

fun array_nd_instantiable :: "array_type \<Rightarrow> bool" where
  "array_nd_instantiable (n # m # ds) = (is_array_nd (n # m # ds) \<and> array_nd_instantiable (m # ds))"
| "array_nd_instantiable [n] = is_array_nd [n]"
| "array_nd_instantiable [] = False"

text \<open>
  The loops counted by an \<open>unsigned\<close> run through a dimension only if its extent is below
  \<open>2 ^ 32\<close>; the innermost dimension is handled by the standard algorithms and by a
  \<open>size_t\<close> counter, so it is not bounded.
\<close>

definition fits_unsigned :: "array_type \<Rightarrow> bool" where
  "fits_unsigned A = list_all (\<lambda>n. n < 2 ^ 32) (butlast A)"

text \<open>The scalars of an array in row-major order: subarray after subarray, outermost
  dimension first.\<close>

fun flatten :: "array_type \<Rightarrow> addr \<Rightarrow> 'v heap \<Rightarrow> 'v list" where
  "flatten [] p s = [s p]"
| "flatten (n # ds) p s = concat (map (\<lambda>i. flatten ds (ptr_index ds p i) s) [0..<n])"

text \<open>The outcome of comparing rows one after the other: the first row that is less or
  greater decides.\<close>

fun first_difference :: "(nat \<Rightarrow> bool) \<Rightarrow> (nat \<Rightarrow> bool) \<Rightarrow> nat list \<Rightarrow> bool" where
  "first_difference lt gt [] = False"
| "first_difference lt gt (i # js) =
     (if lt i then True else if gt i then False else first_difference lt gt js)"

text \<open>Two regions of \<open>len\<close> scalars that do not overlap, and the stores that result from
  exchanging two such regions, from copying one onto the other and from setting one to a
  value.\<close>

definition separate :: "addr \<Rightarrow> addr \<Rightarrow> nat \<Rightarrow> bool" where
  "separate p q len = (p + len \<le> q \<or> q + len \<le> p)"

definition exchanged :: "addr \<Rightarrow> addr \<Rightarrow> nat \<Rightarrow> 'v heap \<Rightarrow> 'v heap" where
  "exchanged p q len s =
     (\<lambda>r. if p \<le> r \<and> r < p + len then s (q + (r - p))
          else if q \<le> r \<and> r < q + len then s (p + (r - q))
          else s r)"

definition overwritten :: "addr \<Rightarrow> addr \<Rightarrow> nat \<Rightarrow> 'v heap \<Rightarrow> 'v heap" where
  "overwritten dst src len s = (\<lambda>r. if dst \<le> r \<and> r < dst + len then s (src + (r - dst)) else s r)"

definition filled :: "addr \<Rightarrow> nat \<Rightarrow> 'v \<Rightarrow> 'v heap \<Rightarrow> 'v heap" where
  "filled p len e s = (\<lambda>r. if p \<le> r \<and> r < p + len then e else s r)"

text \<open>A store given by the scalars at addresses \<open>0, 1, ...\<close> and a value \<open>d\<close> everywhere
  else, and the scalars of an array after a call that returns the wrapper and the store.\<close>

definition heap_of :: "'v list \<Rightarrow> 'v \<Rightarrow> 'v heap" where
  "heap_of vs d = (\<lambda>p. if p < length vs then vs ! p else d)"

definition contents :: "array_type \<Rightarrow> addr \<Rightarrow> (array_nd_ref \<times> 'v heap) option \<Rightarrow> 'v list option" where
  "contents A p r = map_option (\<lambda>(w, s). flatten A p s) r"

text \<open>
  The calls of the core as one function: what the call returns, the wrapper it was made on
  and the store. A checked access out of range is the \<open>Inl\<close> branch; a call that does not
  return is \<open>None\<close>.
\<close>

datatype 'v operation =
    Subscript nat | Call nat | At nat | Get nat
  | Fill 'v | Assign addr | Swap_array addr | Swap_wrapper array_nd_ref
  | Equal array_nd_ref | Not_equal array_nd_ref | Equal_array addr
  | Less array_nd_ref | Greater array_nd_ref

datatype outcome = Reference addr | Subarray call_result | Truth bool | Wrapper array_nd_ref | Done

fun core :: "array_type \<Rightarrow> ('v::linorder) operation \<Rightarrow> array_nd_ref \<Rightarrow> 'v heap
    \<Rightarrow> (error + outcome \<times> array_nd_ref \<times> 'v heap) option" where
  "core A (Subscript I) w s = Some (Inr (Reference (subscript A w I), w, s))"
| "core A (Call I) w s = Some (Inr (Subarray (call A w I), w, s))"
| "core A (At I) w s =
     (case at A w I of Inl e \<Rightarrow> Some (Inl e) | Inr p \<Rightarrow> Some (Inr (Reference p, w, s)))"
| "core A (Get I) w s = Some (Inr (Reference (get I A w), w, s))"
| "core A (Fill e) w s = map_option (\<lambda>(w', s'). Inr (Done, w', s')) (fill A w e s)"
| "core A (Assign rhs) w s = map_option (\<lambda>(w', s'). Inr (Wrapper w', w', s')) (assign A w rhs s)"
| "core A (Swap_array b) w s = (case swap_array A w b s of (w', s') \<Rightarrow> Some (Inr (Done, w', s')))"
| "core A (Swap_wrapper y) w s = Some (Inr (Done, fst (swap_wrapper w y), s))"
| "core A (Equal y) w s = map_option (\<lambda>r. Inr (Truth r, w, s)) (operator_eq A w y s)"
| "core A (Not_equal y) w s = map_option (\<lambda>r. Inr (Truth r, w, s)) (operator_neq A w y s)"
| "core A (Equal_array y) w s = map_option (\<lambda>r. Inr (Truth r, w, s)) (member_eq A w y s)"
| "core A (Less y) w s = map_option (\<lambda>r. Inr (Truth r, w, s)) (operator_less A w y s)"
| "core A (Greater y) w s = map_option (\<lambda>r. Inr (Truth r, w, s)) (operator_greater A w y s)"

section \<open>The counted loops\<close>

lemma unsigned_incr_small: "i < n \<Longrightarrow> n < 2 ^ 32 \<Longrightarrow> unsigned_incr i = Suc i"
  by (simp add: unsigned_incr_def)

lemma for_unsigned_fold:
  assumes n: "n < 2 ^ 32"
    and body: "\<And>i s. i < n \<Longrightarrow> body i s = Some (g i s)"
  shows "i \<le> n \<Longrightarrow> for_unsigned n body i s = Some (fold g [i..<n] s)"
proof (induction "n - i" arbitrary: i s)
  case 0
  then show ?case by (simp add: for_unsigned.simps)
next
  case (Suc k)
  then have lt: "i < n" by simp
  have step: "for_unsigned n body (Suc i) (g i s) = Some (fold g [Suc i..<n] (g i s))"
    using Suc.hyps(1) [of "Suc i" "g i s"] Suc.hyps(2) lt by simp
  show ?case
    using lt step body [OF lt, of s] unsigned_incr_small [OF lt n]
    by (subst for_unsigned.simps) (simp add: upt_conv_Cons)
qed

lemma eq_loop_all:
  assumes n: "n < 2 ^ 32"
    and body: "\<And>i. i < n \<Longrightarrow> body i = Some (g i)"
  shows "i \<le> n \<Longrightarrow> eq_loop n body i = Some (\<forall>j. i \<le> j \<and> j < n \<longrightarrow> g j)"
proof (induction "n - i" arbitrary: i)
  case 0
  then show ?case by (subst eq_loop.simps) auto
next
  case (Suc k)
  then have lt: "i < n" by simp
  have step: "eq_loop n body (Suc i) = Some (\<forall>j. Suc i \<le> j \<and> j < n \<longrightarrow> g j)"
    using Suc.hyps(1) [of "Suc i"] Suc.hyps(2) lt by simp
  have split: "(\<forall>j. i \<le> j \<and> j < n \<longrightarrow> g j) = (g i \<and> (\<forall>j. Suc i \<le> j \<and> j < n \<longrightarrow> g j))"
    using lt by (metis Suc_leD Suc_leI le_eq_less_or_eq)
  show ?case
    using lt step body [OF lt] unsigned_incr_small [OF lt n]
    by (subst eq_loop.simps) (simp add: split)
qed

lemma less_loop_first_difference:
  assumes n: "n < 2 ^ 32"
    and lt: "\<And>i. i < n \<Longrightarrow> lt i = Some (l i)"
    and gt: "\<And>i. i < n \<Longrightarrow> gt i = Some (g i)"
  shows "i \<le> n \<Longrightarrow> less_loop n lt gt i = Some (first_difference l g [i..<n])"
proof (induction "n - i" arbitrary: i)
  case 0
  then show ?case by (simp add: less_loop.simps)
next
  case (Suc k)
  then have less: "i < n" by simp
  have step: "less_loop n lt gt (Suc i) = Some (first_difference l g [Suc i..<n])"
    using Suc.hyps(1) [of "Suc i"] Suc.hyps(2) less by simp
  show ?case
    using less step lt [OF less] gt [OF less] unsigned_incr_small [OF less n]
    by (subst less_loop.simps) (simp add: upt_conv_Cons)
qed

text \<open>A loop whose body leaves the store as it is leaves it so whenever it returns.\<close>

lemma for_unsigned_unchanged:
  assumes body: "\<forall>j t t'. body j t = Some t' \<longrightarrow> t' = t"
    and run: "for_unsigned n body i s = Some s'"
  shows "s' = s"
proof -
  let ?P = "\<lambda>(n'::nat) body' (i'::nat) t t'. body' = body \<longrightarrow> t' = t"
  have "?P n body i s s'"
  proof (rule for_unsigned.raw_induct [where P = ?P, OF _ run])
    fix f n' body' i' t t'
    assume IH: "\<And>n body i s y. f n body i s = Some y \<Longrightarrow> ?P n body i s y"
      and unfolded: "(if i' < n' then Option.bind (body' i' t) (f n' body' (unsigned_incr i'))
          else Some t) = Some t'"
    show "?P n' body' i' t t'"
    proof (intro impI)
      assume eqs: "body' = body"
      show "t' = t"
      proof (cases "i' < n'")
        case True
        then obtain u where u: "body' i' t = Some u"
          and rest: "f n' body' (unsigned_incr i') u = Some t'"
          using unfolded by (auto simp: bind_eq_Some_conv)
        have "u = t" using body u eqs by blast
        moreover have "t' = u" using IH [OF rest] eqs by simp
        ultimately show ?thesis by simp
      next
        case False
        then show ?thesis using unfolded by simp
      qed
    qed
  qed
  then show ?thesis by simp
qed

section \<open>Row-major order is address order\<close>

lemma map_upt_shift: "map f [m..<m + k] = map (\<lambda>i. f (m + i)) [0..<k]"
proof -
  have "[m..<m + k] = map (\<lambda>i. i + m) [0..<k]"
    by (simp only: map_add_upt add.commute [of m k])
  then show ?thesis by (simp add: comp_def add.commute)
qed

lemma concat_blocks:
  "concat (map (\<lambda>i. map (\<lambda>k. f (i * sz + k)) [0..<sz]) [0..<n]) = map f [0..<n * sz]"
proof (induction n)
  case 0
  then show ?case by simp
next
  case (Suc n)
  have "[0..<Suc n * sz] = [0..<n * sz] @ [n * sz..<n * sz + sz]"
    using upt_add_eq_append [of 0 "n * sz" sz] by (simp add: add.commute)
  then have "map f [0..<Suc n * sz] = map f [0..<n * sz] @ map (\<lambda>k. f (n * sz + k)) [0..<sz]"
    by (simp only: map_append map_upt_shift)
  then show ?case using Suc by simp
qed

lemma flatten_contiguous: "flatten A p s = map (\<lambda>k. s (p + k)) [0..<array_size A]"
proof (induction A arbitrary: p)
  case Nil
  then show ?case by simp
next
  case (Cons n ds)
  have "flatten (n # ds) p s
      = concat (map (\<lambda>i. map (\<lambda>k. s (p + (i * array_size ds + k))) [0..<array_size ds]) [0..<n])"
    by (simp add: Cons ptr_index_def add.assoc)
  then show ?case
    using concat_blocks [of "\<lambda>k. s (p + k)" "array_size ds" n] by (simp add: mult.commute)
qed

lemma length_flatten: "length (flatten A p s) = array_size A"
  by (simp add: flatten_contiguous)

lemma flatten_eq_iff:
  "(flatten A p s = flatten A q s) = (\<forall>k<array_size A. s (p + k) = s (q + k))"
  by (auto simp: flatten_contiguous)

lemma flatten_rows:
  "flatten (n # ds) p s = concat (map (\<lambda>i. flatten ds (p + i * array_size ds) s) [0..<n])"
  by (simp add: ptr_index_def)

lemma concat_eq_rows:
  assumes "\<And>i. length (f i) = length (g i)"
  shows "(concat (map f js) = concat (map g js)) = (\<forall>j\<in>set js. f j = g j)"
  using assms by (induction js) auto

section \<open>Equality and ordering\<close>

lemma eq_rank1_all:
  "eq_rank1 A x y s i k = (\<forall>j<k. s (call_element A x (i + j)) = s (call_element A y (i + j)))"
proof (induction k arbitrary: i)
  case 0
  then show ?case by simp
next
  case (Suc k)
  show ?case
    by (auto simp: Suc less_Suc_eq_0_disj)
qed

lemma eq_rank1_flatten:
  "eq_rank1 [n] x y s 0 n = (flatten [n] (a x) s = flatten [n] (a y) s)"
  unfolding flatten_eq_iff eq_rank1_all
  by (simp add: call_element_def remove_extent_def ptr_index_def)

lemma operator_eq_flatten:
  "fits_unsigned A \<Longrightarrow> A \<noteq> [] \<Longrightarrow>
   operator_eq A x y (s::'v heap) = Some (flatten A (a x) s = flatten A (a y) s)"
proof (induction A x y s rule: operator_eq.induct)
  case (1 n m ds x y s)
  have n: "n < 2 ^ 32" and rest: "fits_unsigned (m # ds)"
    using "1.prems" by (simp_all add: fits_unsigned_def)
  let ?sz = "array_size (m # ds)"
  have body: "\<And>i. i < n \<Longrightarrow>
      operator_eq (m # ds) (call_wrapped (n # m # ds) x i) (call_wrapped (n # m # ds) y i) s
      = Some (flatten (m # ds) (a x + i * ?sz) s = flatten (m # ds) (a y + i * ?sz) s)"
    using "1.IH" [OF rest] by (simp add: call_wrapped_def remove_extent_def ptr_index_def)
  have "operator_eq (n # m # ds) x y s
      = Some (\<forall>j. 0 \<le> j \<and> j < n \<longrightarrow>
           flatten (m # ds) (a x + j * ?sz) s = flatten (m # ds) (a y + j * ?sz) s)"
    using eq_loop_all [OF n body, where i = 0] by simp
  also have "(\<forall>j. 0 \<le> j \<and> j < n \<longrightarrow>
           flatten (m # ds) (a x + j * ?sz) s = flatten (m # ds) (a y + j * ?sz) s)
      = (flatten (n # m # ds) (a x) s = flatten (n # m # ds) (a y) s)"
    unfolding flatten_rows [of n "m # ds"]
    by (subst concat_eq_rows) (auto simp add: length_flatten simp del: flatten.simps)
  finally show ?case .
next
  case (2 n x y s)
  show ?case
    using eq_rank1_flatten [of n x y s] by (simp add: extent_def)
next
  case (3 x y s)
  then show ?case by simp
qed

lemma lexicographical_compare_lexord:
  "lexicographical_compare p n q n (s::('v::linorder) heap)
   = (map (\<lambda>k. s (p + k)) [0..<n] < map (\<lambda>k. s (q + k)) [0..<n])"
proof (induction n arbitrary: p q)
  case 0
  then show ?case by simp
next
  case (Suc n)
  have "map (\<lambda>k. s (p + k)) [0..<Suc n] = s p # map (\<lambda>k. s (p + 1 + k)) [0..<n]"
       "map (\<lambda>k. s (q + k)) [0..<Suc n] = s q # map (\<lambda>k. s (q + 1 + k)) [0..<n]"
    by (simp_all only: map_upt_Suc) simp_all
  then show ?case
    using Suc [of "p + 1" "q + 1"] by auto
qed

lemma less_append_blocks:
  fixes u v :: "('v::linorder) list"
  shows "length u = length v \<Longrightarrow> (u @ us < v @ vs) = (u < v \<or> (u = v \<and> us < vs))"
  by (induction u v rule: list_induct2) auto

lemma first_difference_concat:
  fixes f g :: "nat \<Rightarrow> ('v::linorder) list"
  assumes "\<And>j. length (f j) = length (g j)"
  shows "first_difference (\<lambda>j. f j < g j) (\<lambda>j. g j < f j) js
         = (concat (map f js) < concat (map g js))"
proof (induction js)
  case Nil
  then show ?case by simp
next
  case (Cons j js)
  show ?case
    using Cons assms [of j] by (auto simp: less_append_blocks)
qed

lemma operator_less_flatten:
  "fits_unsigned A \<Longrightarrow> A \<noteq> [] \<Longrightarrow>
   operator_less A x y (s::('v::linorder) heap) = Some (flatten A (a x) s < flatten A (a y) s)"
  "fits_unsigned A \<Longrightarrow> A \<noteq> [] \<Longrightarrow>
   operator_greater A x y (s::('v::linorder) heap) = Some (flatten A (a y) s < flatten A (a x) s)"
proof (induction A x y s and A x y s rule: operator_less_operator_greater.induct)
  case (1 n m ds x y s)
  have n: "n < 2 ^ 32" and rest: "fits_unsigned (m # ds)"
    using "1.prems" by (simp_all add: fits_unsigned_def)
  let ?sz = "array_size (m # ds)"
  let ?f = "\<lambda>i. flatten (m # ds) (a x + i * ?sz) s"
  let ?g = "\<lambda>i. flatten (m # ds) (a y + i * ?sz) s"
  have lt: "\<And>i. i < n \<Longrightarrow>
      operator_less (m # ds) (call_wrapped (n # m # ds) x i) (call_wrapped (n # m # ds) y i) s
      = Some (?f i < ?g i)"
    using "1.IH"(1) [OF rest] by (simp add: call_wrapped_def remove_extent_def ptr_index_def)
  have gt: "\<And>i. i < n \<Longrightarrow>
      operator_greater (m # ds) (call_wrapped (n # m # ds) x i) (call_wrapped (n # m # ds) y i) s
      = Some (?g i < ?f i)"
    using "1.IH"(2) [OF rest] by (simp add: call_wrapped_def remove_extent_def ptr_index_def)
  have "operator_less (n # m # ds) x y s
      = Some (first_difference (\<lambda>i. ?f i < ?g i) (\<lambda>i. ?g i < ?f i) [0..<n])"
    using less_loop_first_difference [OF n lt gt, where i = 0] by simp
  also have "first_difference (\<lambda>i. ?f i < ?g i) (\<lambda>i. ?g i < ?f i) [0..<n]
      = (flatten (n # m # ds) (a x) s < flatten (n # m # ds) (a y) s)"
    unfolding flatten_rows [of n "m # ds"]
    by (rule first_difference_concat) (simp only: length_flatten)
  finally show ?case .
next
  case (2 n x y s)
  show ?case
    by (simp add: lexicographical_compare_lexord extent_def flatten_contiguous)
next
  case (3 x y s)
  then show ?case by simp
next
  case (4 A x y s)
  then show ?case by simp
qed

section \<open>Regions of the store\<close>

lemma separate_mono: "separate p q l \<Longrightarrow> l' \<le> l \<Longrightarrow> separate p q l'"
  by (auto simp: separate_def)

lemma separate_shift: "separate p q (l1 + l2) \<Longrightarrow> separate (p + l1) (q + l1) l2"
  by (auto simp: separate_def)

lemma separate_row:
  assumes "separate p q (n * sz)" and "i < n"
  shows "separate (p + i * sz) (q + i * sz) sz"
proof -
  have "Suc i * sz \<le> n * sz" using assms(2) by (intro mult_le_mono1) simp
  then have "i * sz + sz \<le> n * sz" by (simp add: add.commute)
  then show ?thesis using assms(1) by (auto simp: separate_def)
qed

lemma exchanged_first: "k < len \<Longrightarrow> exchanged p q len s (p + k) = s (q + k)"
  by (simp add: exchanged_def)

lemma exchanged_second:
  "separate p q len \<Longrightarrow> k < len \<Longrightarrow> exchanged p q len s (q + k) = s (p + k)"
  by (auto simp: exchanged_def separate_def)

lemma exchanged_other:
  "\<not> (p \<le> r \<and> r < p + len) \<Longrightarrow> \<not> (q \<le> r \<and> r < q + len) \<Longrightarrow> exchanged p q len s r = s r"
  unfolding exchanged_def by (simp only: if_False)

lemma exchanged_append:
  assumes sep: "separate p q (l1 + l2)"
  shows "exchanged (p + l1) (q + l1) l2 (exchanged p q l1 s) = exchanged p q (l1 + l2) s"
proof (rule ext)
  fix r :: nat
  have sep1: "separate p q l1" and sep2: "separate (p + l1) (q + l1) l2"
    using sep by (auto simp: separate_def)
  have region: "\<And>u l. u \<le> r \<Longrightarrow> r < u + l \<Longrightarrow> \<exists>k. r = u + k \<and> k < l"
    by (metis le_Suc_ex nat_add_left_cancel_less)
  consider (p1) "p \<le> r" "r < p + l1"
    | (p2) "p + l1 \<le> r" "r < p + l1 + l2"
    | (q1) "q \<le> r" "r < q + l1"
    | (q2) "q + l1 \<le> r" "r < q + l1 + l2"
    | (out) "\<not> (p \<le> r \<and> r < p + (l1 + l2))" "\<not> (q \<le> r \<and> r < q + (l1 + l2))"
    by linarith
  then consider (p1) k where "r = p + k" "k < l1"
    | (p2) k where "r = p + l1 + k" "k < l2"
    | (q1) k where "r = q + k" "k < l1"
    | (q2) k where "r = q + l1 + k" "k < l2"
    | (out) "\<not> (p \<le> r \<and> r < p + (l1 + l2))" "\<not> (q \<le> r \<and> r < q + (l1 + l2))"
    using region by cases blast+
  then show "exchanged (p + l1) (q + l1) l2 (exchanged p q l1 s) r = exchanged p q (l1 + l2) s r"
  proof cases
    case p1
    have "exchanged (p + l1) (q + l1) l2 (exchanged p q l1 s) (p + k) = exchanged p q l1 s (p + k)"
      using p1(2) sep by (intro exchanged_other) (auto simp: separate_def)
    then show ?thesis using p1 by (simp add: exchanged_first)
  next
    case p2
    have "exchanged p q l1 s (q + l1 + k) = s (q + l1 + k)"
      using p2(2) sep by (intro exchanged_other) (auto simp: separate_def)
    moreover have "exchanged p q (l1 + l2) s (p + (l1 + k)) = s (q + (l1 + k))"
      using p2(2) by (intro exchanged_first) simp
    moreover have "exchanged (p + l1) (q + l1) l2 (exchanged p q l1 s) (p + l1 + k)
        = exchanged p q l1 s (q + l1 + k)"
      using p2(2) by (rule exchanged_first)
    ultimately show ?thesis using p2 by (simp add: add.assoc)
  next
    case q1
    have "exchanged (p + l1) (q + l1) l2 (exchanged p q l1 s) (q + k) = exchanged p q l1 s (q + k)"
      using q1(2) sep by (intro exchanged_other) (auto simp: separate_def)
    moreover have "exchanged p q (l1 + l2) s (q + k) = s (p + k)"
      using q1(2) sep by (intro exchanged_second) simp_all
    ultimately show ?thesis using q1 sep1 by (simp add: exchanged_second)
  next
    case q2
    have "exchanged p q l1 s (p + l1 + k) = s (p + l1 + k)"
      using q2(2) sep by (intro exchanged_other) (auto simp: separate_def)
    moreover have "exchanged p q (l1 + l2) s (q + (l1 + k)) = s (p + (l1 + k))"
      using q2(2) sep by (intro exchanged_second) simp_all
    moreover have "exchanged (p + l1) (q + l1) l2 (exchanged p q l1 s) (q + l1 + k)
        = exchanged p q l1 s (p + l1 + k)"
      using sep2 q2(2) by (rule exchanged_second)
    ultimately show ?thesis using q2 by (simp add: add.assoc)
  next
    case out
    have "exchanged (p + l1) (q + l1) l2 (exchanged p q l1 s) r = exchanged p q l1 s r"
      using out by (intro exchanged_other) auto
    also have "\<dots> = s r"
      using out by (intro exchanged_other) auto
    finally show ?thesis using out by (simp add: exchanged_other)
  qed
qed

lemma exchanged_one: "x \<noteq> y \<Longrightarrow> (s(x := s y))(y := s x) = exchanged x y 1 s"
  by (rule ext) (auto simp: exchanged_def)

lemma overwritten_append:
  "separate src dst (l1 + l2) \<Longrightarrow>
   overwritten (dst + l1) (src + l1) l2 (overwritten dst src l1 s) = overwritten dst src (l1 + l2) s"
  by (rule ext) (auto simp: overwritten_def separate_def)

lemma overwritten_zero: "overwritten dst src 0 s = s"
  by (rule ext) (auto simp: overwritten_def)

lemma filled_append: "filled (p + l1) l2 e (filled p l1 e s) = filled p (l1 + l2) e s"
  by (rule ext) (auto simp: filled_def)

lemma filled_zero: "filled p 0 e s = s"
  by (rule ext) (auto simp: filled_def)

section \<open>Deep swap, deep assignment and fill\<close>

lemma swap_self:
  "x = y \<Longrightarrow> std_swap T x y (s::'v heap) = s"
  "first1 = first2 \<Longrightarrow> swap_ranges T first1 k first2 (s::'v heap) = s"
  by (induction T x y s and T first1 k first2 s rule: std_swap_swap_ranges.induct) (auto simp: Let_def)

lemma swap_exchanged:
  "separate x y (array_size T) \<Longrightarrow> std_swap T x y (s::'v heap) = exchanged x y (array_size T) s"
  "separate first1 first2 (k * array_size T) \<Longrightarrow>
   swap_ranges T first1 k first2 (s::'v heap) = exchanged first1 first2 (k * array_size T) s"
proof (induction T x y s and T first1 k first2 s rule: std_swap_swap_ranges.induct)
  case (1 x y s)
  then have "x \<noteq> y" by (auto simp: separate_def)
  then show ?case by (simp add: Let_def exchanged_one)
next
  case (2 n ds x y s)
  then show ?case by (simp add: mult.commute)
next
  case (3 T first1 first2 s)
  show ?case by (rule ext) (auto simp: exchanged_def)
next
  case (4 T first1 k first2 s)
  have sep: "separate first1 first2 (array_size T + k * array_size T)"
    using "4.prems" by simp
  have one: "std_swap T first1 first2 s = exchanged first1 first2 (array_size T) s"
    using "4.IH"(1) separate_mono [OF sep] by simp
  have rest: "swap_ranges T (first1 + array_size T) k (first2 + array_size T) (std_swap T first1 first2 s)
      = exchanged (first1 + array_size T) (first2 + array_size T) (k * array_size T) (std_swap T first1 first2 s)"
    using "4.IH"(2) separate_shift [OF sep] by simp
  show ?case
    using rest one exchanged_append [OF sep, of s] by simp
qed

lemma flatten_exchanged:
  assumes "separate p q (array_size A)"
  shows "flatten A p (exchanged p q (array_size A) s) = flatten A q s"
    and "flatten A q (exchanged p q (array_size A) s) = flatten A p s"
  using assms by (simp_all add: flatten_contiguous exchanged_first exchanged_second)

lemma fold_const: "fold (\<lambda>i s. s) xs s = s"
  by (induction xs) auto

lemma std_copy_self: "std_copy p k p s = s"
  by (induction k arbitrary: p) auto

lemma assign_self:
  "fits_unsigned A \<Longrightarrow> a w = p \<Longrightarrow> assign A w p (s::'v heap) = Some (w, s)"
proof (induction A w p s rule: assign.induct)
  case (1 n m ds w rhs s)
  have n: "n < 2 ^ 32" and rest: "fits_unsigned (m # ds)"
    using "1.prems"(1) by (simp_all add: fits_unsigned_def)
  have body: "\<And>i (s'::'v heap). i < n \<Longrightarrow>
      map_option snd (assign (m # ds) (call_wrapped (n # m # ds) w i) (ptr_index (m # ds) rhs i) s') = Some s'"
  proof -
    fix i and s' :: "'v heap"
    have "assign (m # ds) (call_wrapped (n # m # ds) w i) (ptr_index (m # ds) rhs i) s'
        = Some (call_wrapped (n # m # ds) w i, s')"
      using "1.prems"(2) by (intro "1.IH" rest) (simp add: call_wrapped_def remove_extent_def)
    then show "map_option snd (assign (m # ds) (call_wrapped (n # m # ds) w i) (ptr_index (m # ds) rhs i) s') = Some s'"
      by simp
  qed
  show ?case
    using for_unsigned_fold [OF n body, where i = 0 and s = s] by (simp add: fold_const)
next
  case (2 n w rhs s)
  then show ?case by (simp add: std_copy_self)
next
  case (3 w rhs s)
  then show ?case by simp
qed

lemma assign_self_unchanged:
  "assign A w p (s::'v heap) = Some (w', s') \<Longrightarrow> a w = p \<Longrightarrow> w' = w \<and> s' = s"
proof (induction A w p s arbitrary: w' s' rule: assign.induct)
  case (1 n m ds w rhs s)
  let ?body = "\<lambda>i (t::'v heap). map_option snd
      (assign (m # ds) (call_wrapped (n # m # ds) w i) (ptr_index (m # ds) rhs i) t)"
  have body: "\<forall>j t t'. ?body j t = Some t' \<longrightarrow> t' = t"
  proof (intro allI impI)
    fix j and t t' :: "'v heap"
    assume "?body j t = Some t'"
    then obtain w'' where "assign (m # ds) (call_wrapped (n # m # ds) w j) (ptr_index (m # ds) rhs j) t
        = Some (w'', t')"
      by auto
    then show "t' = t"
      using "1.IH" "1.prems"(2) by (simp add: call_wrapped_def remove_extent_def)
  qed
  have "for_unsigned n ?body 0 s = Some s'" and "w' = w"
    using "1.prems"(1) by auto
  then show ?case using for_unsigned_unchanged [OF body] by blast
next
  case (2 n w rhs s)
  then show ?case by (auto simp: std_copy_self)
next
  case (3 w rhs s)
  then show ?case by simp
qed

lemma std_copy_overwritten:
  "separate first d_first k \<Longrightarrow> std_copy first k d_first s = overwritten d_first first k s"
proof (induction k arbitrary: first d_first s)
  case 0
  show ?case by (simp add: overwritten_zero)
next
  case (Suc k)
  have sep: "separate first d_first (1 + k)" using Suc.prems by simp
  have ne: "first \<noteq> d_first" using Suc.prems by (auto simp: separate_def)
  have one: "s(d_first := s first) = overwritten d_first first 1 s"
    by (rule ext) (auto simp: overwritten_def)
  have "std_copy first (Suc k) d_first s
      = overwritten (d_first + 1) (first + 1) k (overwritten d_first first 1 s)"
    using Suc.IH [of "first + 1" "d_first + 1"] separate_shift [OF sep] one by simp
  then show ?case using overwritten_append [OF sep, of s] by simp
qed

lemma fold_overwritten:
  "separate src dst (n * sz) \<Longrightarrow>
   fold (\<lambda>i. overwritten (dst + i * sz) (src + i * sz) sz) [0..<n] s = overwritten dst src (n * sz) s"
proof (induction n)
  case 0
  show ?case by (simp add: overwritten_zero)
next
  case (Suc n)
  have sep: "separate src dst (n * sz + sz)" using Suc.prems by (simp add: add.commute)
  have "fold (\<lambda>i. overwritten (dst + i * sz) (src + i * sz) sz) [0..<n] s = overwritten dst src (n * sz) s"
    using Suc.IH separate_mono [OF sep] by simp
  then show ?case
    using overwritten_append [OF sep, of s] by (simp add: add.commute)
qed

lemma assign_overwritten:
  "fits_unsigned A \<Longrightarrow> A \<noteq> [] \<Longrightarrow> separate rhs (a w) (array_size A) \<Longrightarrow>
   assign A w rhs (s::'v heap) = Some (w, overwritten (a w) rhs (array_size A) s)"
proof (induction A w rhs s rule: assign.induct)
  case (1 n m ds w rhs s)
  have n: "n < 2 ^ 32" and rest: "fits_unsigned (m # ds)"
    using "1.prems"(1) by (simp_all add: fits_unsigned_def)
  let ?sz = "array_size (m # ds)"
  have sep: "separate rhs (a w) (n * ?sz)"
    using "1.prems"(3) by (simp add: mult.commute)
  have body: "\<And>i (s'::'v heap). i < n \<Longrightarrow>
      map_option snd (assign (m # ds) (call_wrapped (n # m # ds) w i) (ptr_index (m # ds) rhs i) s')
      = Some (overwritten (a w + i * ?sz) (rhs + i * ?sz) ?sz s')"
  proof -
    fix i and s' :: "'v heap"
    assume "i < n"
    then have "separate (ptr_index (m # ds) rhs i) (a (call_wrapped (n # m # ds) w i)) ?sz"
      using separate_row [OF sep] by (simp add: call_wrapped_def remove_extent_def ptr_index_def)
    then have "assign (m # ds) (call_wrapped (n # m # ds) w i) (ptr_index (m # ds) rhs i) s'
        = Some (call_wrapped (n # m # ds) w i,
            overwritten (a (call_wrapped (n # m # ds) w i)) (ptr_index (m # ds) rhs i) ?sz s')"
      by (intro "1.IH" rest) simp_all
    then show "map_option snd (assign (m # ds) (call_wrapped (n # m # ds) w i) (ptr_index (m # ds) rhs i) s')
      = Some (overwritten (a w + i * ?sz) (rhs + i * ?sz) ?sz s')"
      by (simp add: call_wrapped_def remove_extent_def ptr_index_def)
  qed
  show ?case
    using for_unsigned_fold [OF n body, where i = 0 and s = s] fold_overwritten [OF sep, of s]
    by (simp add: mult.commute)
next
  case (2 n w rhs s)
  then show ?case by (simp add: std_copy_overwritten)
next
  case (3 w rhs s)
  then show ?case by simp
qed

lemma assign_total:
  "fits_unsigned A \<Longrightarrow> \<exists>s'. assign A w rhs (s::'v heap) = Some (w, s')"
proof (induction A w rhs s rule: assign.induct)
  case (1 n m ds w rhs s)
  have n: "n < 2 ^ 32" and rest: "fits_unsigned (m # ds)"
    using "1.prems"(1) by (simp_all add: fits_unsigned_def)
  define g where "g = (\<lambda>i (s'::'v heap).
    snd (the (assign (m # ds) (call_wrapped (n # m # ds) w i) (ptr_index (m # ds) rhs i) s')))"
  have body: "\<And>i (s'::'v heap). i < n \<Longrightarrow>
      map_option snd (assign (m # ds) (call_wrapped (n # m # ds) w i) (ptr_index (m # ds) rhs i) s')
      = Some (g i s')"
  proof -
    fix i and s' :: "'v heap"
    obtain s'' where "assign (m # ds) (call_wrapped (n # m # ds) w i) (ptr_index (m # ds) rhs i) s'
        = Some (call_wrapped (n # m # ds) w i, s'')"
      using "1.IH" [OF rest] by blast
    then show "map_option snd (assign (m # ds) (call_wrapped (n # m # ds) w i) (ptr_index (m # ds) rhs i) s')
        = Some (g i s')"
      by (simp add: g_def)
  qed
  show ?case
    using for_unsigned_fold [OF n body, where i = 0 and s = s] by simp
next
  case (2 n w rhs s)
  then show ?case by simp
next
  case (3 w rhs s)
  then show ?case by simp
qed

lemma assign_handle: "assign A w rhs (s::'v heap) = Some (w', s') \<Longrightarrow> w' = w"
  by (induction A w rhs s rule: assign.induct) auto

lemma fill_n_filled: "fill_n first k v s = filled first k v s"
proof (induction k arbitrary: first s)
  case 0
  show ?case by (simp add: filled_zero)
next
  case (Suc k)
  have one: "s(first := v) = filled first 1 v s"
    by (rule ext) (auto simp: filled_def)
  show ?case
    using filled_append [of first 1 k v s] by (simp add: Suc one)
qed

lemma fold_filled:
  "fold (\<lambda>i. filled (p + i * sz) sz e) [0..<n] s = filled p (n * sz) e s"
proof (induction n)
  case 0
  show ?case by (simp add: filled_zero)
next
  case (Suc n)
  show ?case
    using filled_append [of p "n * sz" sz e s] by (simp add: Suc add.commute)
qed

lemma fill_filled:
  "fits_unsigned A \<Longrightarrow> A \<noteq> [] \<Longrightarrow>
   fill A w e (s::'v heap) = Some (w, filled (a w) (array_size A) e s)"
proof (induction A w e s rule: fill.induct)
  case (1 n m ds w e s)
  have n: "n < 2 ^ 32" and rest: "fits_unsigned (m # ds)"
    using "1.prems"(1) by (simp_all add: fits_unsigned_def)
  let ?sz = "array_size (m # ds)"
  have body: "\<And>i (s'::'v heap). i < n \<Longrightarrow>
      map_option snd (fill (m # ds) (call_wrapped (n # m # ds) w i) e s')
      = Some (filled (a w + i * ?sz) ?sz e s')"
  proof -
    fix i and s' :: "'v heap"
    have "fill (m # ds) (call_wrapped (n # m # ds) w i) e s'
        = Some (call_wrapped (n # m # ds) w i, filled (a (call_wrapped (n # m # ds) w i)) ?sz e s')"
      by (intro "1.IH" rest) simp
    then show "map_option snd (fill (m # ds) (call_wrapped (n # m # ds) w i) e s')
      = Some (filled (a w + i * ?sz) ?sz e s')"
      by (simp add: call_wrapped_def remove_extent_def ptr_index_def)
  qed
  show ?case
    using for_unsigned_fold [OF n body, where i = 0 and s = s] fold_filled [of "a w" ?sz e n s]
    by (simp add: mult.commute)
next
  case (2 n w e s)
  then show ?case by (simp add: fill_n_filled)
next
  case (3 w e s)
  then show ?case by simp
qed

lemma fill_total:
  "fits_unsigned A \<Longrightarrow> \<exists>s'. fill A w e (s::'v heap) = Some (w, s')"
proof (induction A w e s rule: fill.induct)
  case (1 n m ds w e s)
  have n: "n < 2 ^ 32" and rest: "fits_unsigned (m # ds)"
    using "1.prems"(1) by (simp_all add: fits_unsigned_def)
  define g where "g = (\<lambda>i (s'::'v heap). snd (the (fill (m # ds) (call_wrapped (n # m # ds) w i) e s')))"
  have body: "\<And>i (s'::'v heap). i < n \<Longrightarrow>
      map_option snd (fill (m # ds) (call_wrapped (n # m # ds) w i) e s') = Some (g i s')"
  proof -
    fix i and s' :: "'v heap"
    obtain s'' where "fill (m # ds) (call_wrapped (n # m # ds) w i) e s' = Some (call_wrapped (n # m # ds) w i, s'')"
      using "1.IH" [OF rest] by blast
    then show "map_option snd (fill (m # ds) (call_wrapped (n # m # ds) w i) e s') = Some (g i s')"
      by (simp add: g_def)
  qed
  show ?case
    using for_unsigned_fold [OF n body, where i = 0 and s = s] by simp
next
  case (2 n w e s)
  then show ?case by simp
next
  case (3 w e s)
  then show ?case by simp
qed

lemma fill_handle: "fill A w e (s::'v heap) = Some (w', s') \<Longrightarrow> w' = w"
  by (induction A w e s rule: fill.induct) auto

section \<open>Initialisers\<close>

lemma materialize_eq:
  "materialize t vs s = (\<lambda>r. if t \<le> r \<and> r < t + length vs then vs ! (r - t) else s r)"
proof (induction vs arbitrary: t s)
  case Nil
  show ?case by (rule ext) auto
next
  case (Cons v vs)
  show ?case
    by (rule ext) (auto simp: Cons nth_Cons' Suc_diff_le)
qed

lemma materialize_at: "k < length vs \<Longrightarrow> materialize t vs s (t + k) = vs ! k"
  by (simp add: materialize_eq)

lemma aggregate_length:
  "aggregate_init A (lit::('v::zero) init) = Some vs \<Longrightarrow> length vs = array_size A"
  "aggregate_elems T k (ls::('v::zero) init list) = Some vs \<Longrightarrow> length vs = k * array_size T"
  by (induction A lit and T k ls arbitrary: vs and vs rule: aggregate_init_aggregate_elems.induct)
    (auto simp: mult.commute split: option.splits)

lemma aggregate_elems_zero:
  "aggregate_elems T k (ls::('v::zero) init list) = Some vs \<Longrightarrow>
   length ls \<le> k \<and> (\<forall>j. length ls * array_size T \<le> j \<and> j < k * array_size T \<longrightarrow> vs ! j = 0)"
proof (induction ls arbitrary: k vs)
  case Nil
  then show ?case by auto
next
  case (Cons l ls)
  then obtain k' where k: "k = Suc k'" by (cases k) auto
  obtain us ws where us: "aggregate_init T l = Some us"
    and ws: "aggregate_elems T k' ls = Some ws" and vs: "vs = us @ ws"
    using Cons.prems unfolding k by (auto split: option.splits)
  have len: "length us = array_size T" using aggregate_length(1) [OF us] .
  have IH: "length ls \<le> k' \<and> (\<forall>j. length ls * array_size T \<le> j \<and> j < k' * array_size T \<longrightarrow> ws ! j = 0)"
    using Cons.IH [OF ws] .
  show ?case
  proof (intro conjI allI impI)
    show "length (l # ls) \<le> k" using IH k by simp
  next
    fix j
    assume j: "length (l # ls) * array_size T \<le> j \<and> j < k * array_size T"
    then have "array_size T \<le> j" by simp
    moreover have "length ls * array_size T \<le> j - array_size T \<and> j - array_size T < k' * array_size T"
      using j k by simp linarith
    then have "ws ! (j - array_size T) = 0"
      using IH by blast
    ultimately show "vs ! j = 0"
      by (simp add: vs nth_append len)
  qed
qed

lemma aggregate_elems_row:
  "aggregate_elems T k (ls::('v::zero) init list) = Some vs \<Longrightarrow> i < length ls \<Longrightarrow>
   aggregate_init T (ls ! i) = Some us \<Longrightarrow>
   take (array_size T) (drop (i * array_size T) vs) = us"
proof (induction ls arbitrary: k vs i)
  case Nil
  then show ?case by simp
next
  case (Cons l ls)
  then obtain k' where k: "k = Suc k'" by (cases k) auto
  obtain hs ws where hs: "aggregate_init T l = Some hs"
    and ws: "aggregate_elems T k' ls = Some ws" and vs: "vs = hs @ ws"
    using Cons.prems(1) unfolding k by (auto split: option.splits)
  have len: "length hs = array_size T" using aggregate_length(1) [OF hs] .
  show ?case
  proof (cases i)
    case 0
    then show ?thesis using Cons.prems(3) hs len by (simp add: vs)
  next
    case (Suc j)
    then have "take (array_size T) (drop (j * array_size T) ws) = us"
      using Cons.IH [OF ws, of j] Cons.prems(2,3) by simp
    then show ?thesis using Suc len by (simp add: vs)
  qed
qed

section \<open>Small facts for concrete arrays\<close>


lemma array_size_extent:
  "A \<noteq> [] \<Longrightarrow> extent A * array_size (remove_extent A) = array_size A"
  by (cases A) (simp_all add: extent_def remove_extent_def)

lemma instantiable_fits:
  "array_nd_instantiable A \<Longrightarrow> fits_unsigned A \<and> A \<noteq> []"
proof (induction A rule: array_nd_instantiable.induct)
  case (1 n m ds)
  then show ?case by (simp add: fits_unsigned_def is_array_nd_def extent_def)
next
  case (2 n)
  then show ?case by (simp add: fits_unsigned_def)
next
  case 3
  then show ?case by simp
qed

lemma fits_22: "fits_unsigned [2, 2]" "is_array_nd [2, 2]"
  by (simp_all add: fits_unsigned_def is_array_nd_def rank_def extent_def)

lemma instantiable_22: "array_nd_instantiable [2, 2]" "rank [2, 2] \<noteq> 0"
  by (simp_all add: is_array_nd_def rank_def extent_def)

lemma fits_42: "fits_unsigned [4, 2]" "is_array_nd [4, 2]"
  by (simp_all add: fits_unsigned_def is_array_nd_def rank_def extent_def)

lemma upt4: "[0..<4] = [0, 1, 2, 3]"
  by (simp add: upt_rec)

lemma upt8: "[0..<8] = [0, 1, 2, 3, 4, 5, 6, 7]"
  by (simp add: upt_rec)

lemma window_loop:
  "for_unsigned 3
     (\<lambda>i s'. map_option snd (fill [2, 2] \<lparr>a = ptr_index [2] Ns i\<rparr> (int i) s')) 0 (s::int heap)
   = Some (filled (Ns + 4) 4 2 (filled (Ns + 2) 4 1 (filled Ns 4 0 s)))"
proof -
  have body: "\<And>i (s'::int heap). i < 3 \<Longrightarrow>
      map_option snd (fill [2, 2] \<lparr>a = ptr_index [2] Ns i\<rparr> (int i) s')
      = Some (filled (Ns + i * 2) 4 (int i) s')"
    by (simp add: fill_filled [OF fits_22(1)] ptr_index_def del: fill.simps)
  have "[0..<3] = [0, 1, 2]" by (simp add: upt_rec)
  then show ?thesis
    using for_unsigned_fold [of 3, OF _ body, where i = 0 and s = s] by simp
qed

section \<open>Swapping two wrappers\<close>

text \<open>What either swap of two wrappers leaves to its caller.\<close>

lemma swap_by_value:
  "swap_wrapper x y = (x\<lparr>a := a y\<rparr>, y)"
  "swap x y = (x, y)"
  by (simp_all add: swap_wrapper_def swap_def Let_def)

text \<open>
  C1. The claim: after swapping wrappers \<open>x\<close> and \<open>y\<close>, by the member taking a wrapper or
  by the free function on two wrappers, each has the other's previous handle and no element
  has changed. The theorem evaluates both on wrappers with handles \<open>0\<close> and \<open>4\<close>: the member
  takes its argument by value, so \<open>x\<close> receives \<open>4\<close> and \<open>y\<close> keeps \<open>4\<close>; the free function
  takes both by value, so both keep their handles. Neither touches the store.
\<close>

theorem swap_wrapper_keeps_argument:
  "swap_wrapper \<lparr>a = 0\<rparr> \<lparr>a = 4\<rparr> = (\<lparr>a = 4\<rparr>, \<lparr>a = 4\<rparr>)
   \<and> swap \<lparr>a = 0\<rparr> \<lparr>a = 4\<rparr> = (\<lparr>a = 0\<rparr>, \<lparr>a = 4\<rparr>)"
  by (simp add: swap_wrapper_def swap_def Let_def)

section \<open>Assignment from a partial literal\<close>

text \<open>
  C2, as the code has it. For an array type whose outer extents are below \<open>2 ^ 32\<close>, a
  wrapper \<open>w\<close> and a fully braced literal that is well-formed for the type, with the
  temporary apart from the referred-to array: the assignment returns \<open>w\<close>, the referred-to
  array then holds the aggregate-initialised temporary, so each subarray the literal gives an
  initialiser for holds that initialiser's values, and every scalar after the last
  initialised subarray is zero, whatever it was before.
\<close>

theorem assign_literal_zero_fills:
  assumes "rank A \<noteq> 0" and "fits_unsigned A"
    and "aggregate_init A lit = Some vs"
    and "separate tmp (a w) (array_size A)"
  shows "\<exists>s'. assign A w tmp (materialize tmp vs (s::('v::zero) heap)) = Some (w, s')
       \<and> flatten A (a w) s' = vs
       \<and> (\<forall>ls. lit = Braces ls \<longrightarrow>
            length ls \<le> extent A
            \<and> (\<forall>i us. i < length ls \<longrightarrow> aggregate_init (remove_extent A) (ls ! i) = Some us \<longrightarrow>
                  flatten (remove_extent A) (subscript A w i) s' = us)
            \<and> (\<forall>k. length ls * array_size (remove_extent A) \<le> k \<and> k < array_size A
                  \<longrightarrow> s' (a w + k) = 0))"
proof -
  have ne: "A \<noteq> []" using assms(1) by (auto simp: rank_def)
  let ?n = "array_size A"
  let ?s0 = "materialize tmp vs s"
  let ?s' = "overwritten (a w) tmp ?n ?s0"
  have len: "length vs = ?n" using aggregate_length(1) [OF assms(3)] .
  have run: "assign A w tmp ?s0 = Some (w, ?s')"
    using assign_overwritten [OF assms(2) ne assms(4)] .
  have cell: "?s' (a w + k) = vs ! k" if "k < ?n" for k
    using that len by (simp add: overwritten_def materialize_at)
  have "flatten A (a w) ?s' = map (\<lambda>k. vs ! k) [0..<?n]"
    unfolding flatten_contiguous using cell by simp
  then have whole: "flatten A (a w) ?s' = vs"
    using map_nth [of vs] len by simp
  have parts: "length ls \<le> extent A
      \<and> (\<forall>i us. i < length ls \<longrightarrow> aggregate_init (remove_extent A) (ls ! i) = Some us \<longrightarrow>
            flatten (remove_extent A) (subscript A w i) ?s' = us)
      \<and> (\<forall>k. length ls * array_size (remove_extent A) \<le> k \<and> k < ?n \<longrightarrow> ?s' (a w + k) = 0)"
    if lit: "lit = Braces ls" for ls
  proof -
    obtain n ds where A: "A = n # ds" using ne by (cases A) auto
    let ?sz = "array_size ds"
    have elems: "aggregate_elems ds n ls = Some vs"
      using assms(3) by (simp add: lit A)
    have zero: "length ls \<le> n \<and> (\<forall>j. length ls * ?sz \<le> j \<and> j < n * ?sz \<longrightarrow> vs ! j = 0)"
      using aggregate_elems_zero [OF elems] .
    have row: "flatten ds (a w + i * ?sz) ?s' = us"
      if i: "i < length ls" and us: "aggregate_init ds (ls ! i) = Some us" for i us
    proof -
      have "Suc i * ?sz \<le> n * ?sz" using i zero by (intro mult_le_mono1) simp
      then have bound: "i * ?sz + ?sz \<le> ?n" by (simp add: A mult.commute)
      have "flatten ds (a w + i * ?sz) ?s' = map (\<lambda>k. vs ! (i * ?sz + k)) [0..<?sz]"
        unfolding flatten_contiguous using bound cell by (simp add: add.assoc)
      also have "\<dots> = take ?sz (drop (i * ?sz) vs)"
        using bound len by (intro nth_equalityI) simp_all
      also have "\<dots> = us" using aggregate_elems_row [OF elems i us] .
      finally show ?thesis .
    qed
    show ?thesis
      using zero row cell
      by (simp add: A extent_def remove_extent_def subscript_def ptr_index_def mult.commute)
  qed
  show ?thesis
    using run whole parts by blast
qed

text \<open>
  C2, as it was stated, fails on the test's own data: the array holds \<open>{{0,1},{1,0}}\<close>, the
  literal is \<open>{{1}}\<close>; afterwards the three scalars without an initialiser are zero, not
  their prior values.
\<close>

theorem partial_literal_overwrites_counterexample:
  "aggregate_init [2, 2] (Braces [Braces [Val (1::int)]]) = Some [1, 0, 0, 0]
   \<and> flatten [2, 2] 0 (heap_of [0, 1, 1, 0] (0::int)) = [0, 1, 1, 0]
   \<and> contents [2, 2] 0
       (assign [2, 2] \<lparr>a = 0\<rparr> 4 (materialize 4 [1, 0, 0, 0] (heap_of [0, 1, 1, 0] (0::int))))
     = Some [1, 0, 0, 0]"
proof -
  have sep: "separate 4 (a \<lparr>a = 0\<rparr>) (array_size [2, 2])"
    by (simp add: separate_def)
  have "assign [2, 2] \<lparr>a = 0\<rparr> 4 (materialize 4 [1, 0, 0, 0] (heap_of [0, 1, 1, 0] (0::int)))
      = Some (\<lparr>a = 0\<rparr>, overwritten 0 4 4 (materialize 4 [1, 0, 0, 0] (heap_of [0, 1, 1, 0] 0)))"
    using assign_overwritten [OF fits_22(1) _ sep] by (simp del: assign.simps materialize.simps)
  then show ?thesis
    by (simp add: contents_def flatten_contiguous upt4 overwritten_def heap_of_def eval_nat_numeral)
qed

theorem assign_literal_zero_fills_witness:
  "rank [2, 2] \<noteq> 0 \<and> fits_unsigned [2, 2]
   \<and> aggregate_init [2, 2] (Braces [Braces [Val (1::int)]]) = Some [1, 0, 0, 0]
   \<and> separate 4 0 4
   \<and> contents [2, 2] 0
       (assign [2, 2] \<lparr>a = 0\<rparr> 4 (materialize 4 [1, 0, 0, 0] (heap_of [0, 1, 1, 0] (0::int))))
     = Some [1, 0, 0, 0]"
proof -
  have lit: "aggregate_init [2, 2] (Braces [Braces [Val (1::int)]]) = Some [1, 0, 0, 0]"
    by (simp add: eval_nat_numeral)
  have sep: "separate 4 (a \<lparr>a = 0\<rparr>) (array_size [2, 2])"
    by (simp add: separate_def)
  obtain s' where "assign [2, 2] \<lparr>a = 0\<rparr> 4 (materialize 4 [1, 0, 0, 0] (heap_of [0, 1, 1, 0] (0::int)))
        = Some (\<lparr>a = 0\<rparr>, s')"
      and "flatten [2, 2] (a \<lparr>a = 0\<rparr>) s' = [1, 0, 0, 0]"
    using assign_literal_zero_fills [OF instantiable_22(2) fits_22(1) lit sep, of "heap_of [0, 1, 1, 0] 0"]
    by blast
  then show ?thesis
    using lit sep fits_22(1) instantiable_22(2) by (simp add: contents_def)
qed

section \<open>Ordering\<close>

text \<open>
  C3. For every array type on which the operations of a wrapper exist and two wrappers of
  that type, \<open>x < y\<close> returns whether the row-major sequence of \<open>x\<close>'s scalars is
  lexicographically less than that of \<open>y\<close>; for rank above 1 that is the comparison of the
  first pair of subarrays that differ. The scalars are of a linearly ordered type.
\<close>

theorem operator_less_lexicographic:
  assumes "array_nd_instantiable A"
  shows "operator_less A x y (s::('v::linorder) heap) = Some (flatten A (a x) s < flatten A (a y) s)
       \<and> (flatten A (a x) s < flatten A (a y) s)
           = ((flatten A (a x) s, flatten A (a y) s) \<in> lexord {(u, v). u < v})
       \<and> (1 < rank A \<longrightarrow>
            (flatten A (a x) s < flatten A (a y) s)
            = first_difference
                (\<lambda>i. flatten (remove_extent A) (subscript A x i) s
                       < flatten (remove_extent A) (subscript A y i) s)
                (\<lambda>i. flatten (remove_extent A) (subscript A y i) s
                       < flatten (remove_extent A) (subscript A x i) s)
                [0..<extent A])"
proof -
  have fits: "fits_unsigned A" and ne: "A \<noteq> []"
    using instantiable_fits [OF assms] by simp_all
  have rows: "(flatten A (a x) s < flatten A (a y) s)
      = first_difference
          (\<lambda>i. flatten (remove_extent A) (subscript A x i) s
                 < flatten (remove_extent A) (subscript A y i) s)
          (\<lambda>i. flatten (remove_extent A) (subscript A y i) s
                 < flatten (remove_extent A) (subscript A x i) s)
          [0..<extent A]"
    if "1 < rank A"
  proof -
    obtain n ds where A: "A = n # ds" using ne by (cases A) auto
    show ?thesis
      unfolding A flatten_rows
      by (simp add: first_difference_concat length_flatten extent_def remove_extent_def
          subscript_def ptr_index_def del: flatten.simps)
  qed
  show ?thesis
    using operator_less_flatten(1) [OF fits ne, of x y s] rows
    by (simp add: list_less_def)
qed

theorem operator_less_lexicographic_witness:
  "array_nd_instantiable [2, 2]
   \<and> operator_less [2, 2] \<lparr>a = 0\<rparr> \<lparr>a = 4\<rparr> (heap_of [1, 2, 3, 4, 1, 2, 3, 5] (0::int)) = Some True
   \<and> operator_less [2, 2] \<lparr>a = 4\<rparr> \<lparr>a = 0\<rparr> (heap_of [1, 2, 3, 4, 1, 2, 3, 5] (0::int)) = Some False"
  using operator_less_lexicographic [OF instantiable_22(1),
      of "\<lparr>a = 0\<rparr>" "\<lparr>a = 4\<rparr>" "heap_of [1, 2, 3, 4, 1, 2, 3, 5] (0::int)"]
    operator_less_lexicographic [OF instantiable_22(1),
      of "\<lparr>a = 4\<rparr>" "\<lparr>a = 0\<rparr>" "heap_of [1, 2, 3, 4, 1, 2, 3, 5] (0::int)"]
    instantiable_22(1)
  by (simp add: flatten_contiguous upt4 heap_of_def
      del: operator_less.simps array_nd_instantiable.simps)

section \<open>Equality\<close>

text \<open>
  C4. For every array type on which the operations of a wrapper exist: two wrappers, or a
  wrapper and an array, compare equal exactly when their row-major sequences of scalars are
  equal; in particular two arrays (two objects, so apart from each other) that differ in
  exactly one scalar compare unequal, and equal once that scalar is corrected.
\<close>

theorem operator_eq_elementwise:
  assumes "array_nd_instantiable A"
  shows "operator_eq A x y (s::'v heap) = Some (flatten A (a x) s = flatten A (a y) s)
       \<and> member_eq A x b s = Some (flatten A (a x) s = flatten A b s)
       \<and> (\<forall>k<array_size A.
            separate (a x) (a y) (array_size A) \<longrightarrow>
            s (a x + k) \<noteq> s (a y + k) \<longrightarrow>
            (\<forall>j<array_size A. j \<noteq> k \<longrightarrow> s (a x + j) = s (a y + j)) \<longrightarrow>
            operator_eq A x y s = Some False
            \<and> operator_eq A x y (s(a y + k := s (a x + k))) = Some True)"
proof -
  have fits: "fits_unsigned A" and ne: "A \<noteq> []"
    using instantiable_fits [OF assms] by simp_all
  have eq: "\<And>x y (s::'v heap). operator_eq A x y s = Some (flatten A (a x) s = flatten A (a y) s)"
    using operator_eq_flatten [OF fits ne] .
  have one: "operator_eq A x y s = Some False
      \<and> operator_eq A x y (s(a y + k := s (a x + k))) = Some True"
    if k: "k < array_size A" and sep: "separate (a x) (a y) (array_size A)"
      and diff: "s (a x + k) \<noteq> s (a y + k)"
      and same: "\<forall>j<array_size A. j \<noteq> k \<longrightarrow> s (a x + j) = s (a y + j)" for k
  proof -
    have "flatten A (a x) s \<noteq> flatten A (a y) s"
      using k diff by (auto simp: flatten_eq_iff)
    moreover have "(s(a y + k := s (a x + k))) (a x + j) = (s(a y + k := s (a x + k))) (a y + j)"
      if "j < array_size A" for j
      using that k sep same by (auto simp: separate_def)
    then have "flatten A (a x) (s(a y + k := s (a x + k))) = flatten A (a y) (s(a y + k := s (a x + k)))"
      unfolding flatten_eq_iff by blast
    ultimately show ?thesis by (simp add: eq)
  qed
  show ?thesis
    using eq [of x y s] eq [of x "\<lparr>a = b\<rparr>" s] one by (simp add: member_eq_def)
qed

theorem operator_eq_elementwise_witness:
  "array_nd_instantiable [2, 2] \<and> separate 0 4 4
   \<and> operator_eq [2, 2] \<lparr>a = 0\<rparr> \<lparr>a = 4\<rparr> (heap_of [1, 2, 3, 4, 1, 2, 3, 5] (0::int)) = Some False
   \<and> operator_eq [2, 2] \<lparr>a = 0\<rparr> \<lparr>a = 4\<rparr> ((heap_of [1, 2, 3, 4, 1, 2, 3, 5] (0::int))(7 := 4))
       = Some True
   \<and> member_eq [2, 2] \<lparr>a = 0\<rparr> 0 (heap_of [1, 2, 3, 4, 1, 2, 3, 5] (0::int)) = Some True"
proof -
  let ?s = "heap_of [1, 2, 3, 4, 1, 2, 3, 5] (0::int)"
  have sep: "separate 0 4 4" by (simp add: separate_def)
  have same: "\<forall>j<4. j \<noteq> 3 \<longrightarrow> ?s (0 + j) = ?s (4 + j)"
    by (auto simp: heap_of_def nth_Cons' less_Suc_eq eval_nat_numeral)
  have diff: "?s (0 + 3) \<noteq> ?s (4 + 3)"
    by (simp add: heap_of_def)
  note T = operator_eq_elementwise [OF instantiable_22(1), of "\<lparr>a = 0\<rparr>" "\<lparr>a = 4\<rparr>" ?s 0]
  have "operator_eq [2, 2] \<lparr>a = 0\<rparr> \<lparr>a = 4\<rparr> ?s = Some False
      \<and> operator_eq [2, 2] \<lparr>a = 0\<rparr> \<lparr>a = 4\<rparr> (?s(4 + 3 := ?s (0 + 3))) = Some True"
    using T [THEN conjunct2, THEN conjunct2, rule_format, of 3] sep same diff
    by (simp del: operator_eq.simps)
  moreover have "?s (0 + 3) = 4" by (simp add: heap_of_def)
  moreover have "flatten [2, 2] 0 ?s = flatten [2, 2] 0 ?s" by (rule refl)
  then have "member_eq [2, 2] \<lparr>a = 0\<rparr> 0 ?s = Some True"
    using T [THEN conjunct2, THEN conjunct1] by (simp only: array_nd_ref.simps)
  ultimately show ?thesis using instantiable_22(1) sep
    by (simp del: operator_eq.simps array_nd_instantiable.simps)
qed

section \<open>Deep swap\<close>

text \<open>
  C5. For a wrapper over an array and a raw array of the same type apart from it, the swap
  with the raw array leaves in each the scalars the other held, position by position, leaves
  every other scalar of the store alone and returns the wrapper as it was.
\<close>

theorem swap_array_exchanges:
  assumes "rank A \<noteq> 0" and "separate (a w) b (array_size A)"
  shows "fst (swap_array A w b (s::'v heap)) = w
       \<and> flatten A (a w) (snd (swap_array A w b s)) = flatten A b s
       \<and> flatten A b (snd (swap_array A w b s)) = flatten A (a w) s
       \<and> (\<forall>r. \<not> (a w \<le> r \<and> r < a w + array_size A) \<longrightarrow> \<not> (b \<le> r \<and> r < b + array_size A) \<longrightarrow>
              snd (swap_array A w b s) r = s r)"
proof -
  have ne: "A \<noteq> []" using assms(1) by (auto simp: rank_def)
  have size: "extent A * array_size (remove_extent A) = array_size A"
    using array_size_extent [OF ne] .
  have "swap_ranges (remove_extent A) (a w) (extent A) b s = exchanged (a w) b (array_size A) s"
    using swap_exchanged(2) [of "a w" b "extent A" "remove_extent A" s] assms(2) size by simp
  then have "swap_array A w b s = (w, exchanged (a w) b (array_size A) s)"
    by (simp add: swap_array_def)
  then show ?thesis
    using flatten_exchanged [OF assms(2), of s] by (simp add: exchanged_other)
qed

theorem swap_array_exchanges_witness:
  "rank [2, 2] \<noteq> 0 \<and> separate 0 4 4
   \<and> flatten [2, 2] 0 (heap_of [False, False, False, False, True, True, True, True] False)
       = [False, False, False, False]
   \<and> flatten [2, 2] 0 (snd (swap_array [2, 2] \<lparr>a = 0\<rparr> 4
         (heap_of [False, False, False, False, True, True, True, True] False)))
       = [True, True, True, True]
   \<and> flatten [2, 2] 4 (snd (swap_array [2, 2] \<lparr>a = 0\<rparr> 4
         (heap_of [False, False, False, False, True, True, True, True] False)))
       = [False, False, False, False]"
proof -
  have sep: "separate (a \<lparr>a = 0\<rparr>) 4 (array_size [2, 2])" by (simp add: separate_def)
  show ?thesis
    using swap_array_exchanges [OF instantiable_22(2) sep,
        of "heap_of [False, False, False, False, True, True, True, True] False"]
      instantiable_22(2) sep
    by (simp add: flatten_contiguous upt4 heap_of_def)
qed

section \<open>Checked access\<close>

text \<open>
  C6. \<open>at(I)\<close> signals \<open>out_of_range\<close> exactly when \<open>I\<close> is not below the outermost
  extent; below it, \<open>at(I)\<close> is a reference to element \<open>I\<close> and the wrapper and the store
  are as before; and among the calls of the core a signalled error is always that one.
\<close>

theorem at_only_error:
  "(at A w I = Inl out_of_range) = (extent A \<le> I)
   \<and> (I < extent A \<longrightarrow> at A w I = Inr (ptr_index (remove_extent A) (a w) I))
   \<and> (core A c w (s::('v::linorder) heap) = Some (Inl e)) = (\<exists>J. c = At J \<and> extent A \<le> J)
   \<and> (\<forall>r w' s'. core A (At I) w s = Some (Inr (r, w', s')) \<longrightarrow> w' = w \<and> s' = s)"
proof -
  have "(core A c w s = Some (Inl e)) = (\<exists>J. c = At J \<and> extent A \<le> J)"
    by (cases c; cases e) (auto simp: at_def split: prod.splits)
  then show ?thesis
    by (auto simp: at_def)
qed

theorem at_only_error_witness:
  "at [2, 2] \<lparr>a = 0\<rparr> 2 = Inl out_of_range
   \<and> at [2, 2] \<lparr>a = 0\<rparr> 1 = Inr 2
   \<and> core [2, 2] (At 5) \<lparr>a = 0\<rparr> (heap_of [1, 2, 3, 4] (0::int)) = Some (Inl out_of_range)
   \<and> core [2, 2] (At 1) \<lparr>a = 0\<rparr> (heap_of [1, 2, 3, 4] (0::int))
       = Some (Inr (Reference 2, \<lparr>a = 0\<rparr>, heap_of [1, 2, 3, 4] 0))"
  using at_only_error [of "[2, 2]" "\<lparr>a = 0\<rparr>" 2 "At 5" "heap_of [1, 2, 3, 4] (0::int)" out_of_range]
    at_only_error [of "[2, 2]" "\<lparr>a = 0\<rparr>" 1 "At 1" "heap_of [1, 2, 3, 4] (0::int)" out_of_range]
  by (simp add: extent_def remove_extent_def ptr_index_def at_def)

section \<open>Self-operations\<close>

text \<open>
  C7. For a wrapper \<open>w\<close> over an array of a type on which the operations of a wrapper
  exist, the deep assignment from that same array returns \<open>w\<close> and the store unchanged;
  for any array type it has changed nothing whenever it returns, and it returns when the
  outer extents are below \<open>2 ^ 32\<close>. The deep swap with that same array leaves the store
  unchanged, and the shallow swap of \<open>w\<close> with itself leaves its handle unchanged.
\<close>

theorem self_operations_preserve:
  "(array_nd_instantiable A \<longrightarrow> assign A w (a w) (s::'v heap) = Some (w, s))
   \<and> (\<forall>w' s'. assign A w (a w) s = Some (w', s') \<longrightarrow> w' = w \<and> s' = s)
   \<and> (fits_unsigned A \<longrightarrow> assign A w (a w) s = Some (w, s))
   \<and> swap_array A w (a w) s = (w, s)
   \<and> swap_wrapper w w = (w, w)"
  using assign_self_unchanged [of A w "a w" s] assign_self [of A w "a w" s]
    swap_self(2) [of "a w" "a w" "remove_extent A" "extent A" s] instantiable_fits [of A]
  by (simp add: swap_array_def swap_wrapper_def Let_def)

theorem self_operations_preserve_witness:
  "array_nd_instantiable [2, 2] \<and> fits_unsigned [2, 2]
   \<and> assign [2, 2] \<lparr>a = 0\<rparr> 0 (heap_of [0, 1, 1, 0] (0::int))
       = Some (\<lparr>a = 0\<rparr>, heap_of [0, 1, 1, 0] 0)
   \<and> swap_array [2, 2] \<lparr>a = 0\<rparr> 0 (heap_of [0, 1, 1, 1] (0::int))
       = (\<lparr>a = 0\<rparr>, heap_of [0, 1, 1, 1] 0)
   \<and> swap_wrapper \<lparr>a = 0\<rparr> \<lparr>a = 0\<rparr> = (\<lparr>a = 0\<rparr>, \<lparr>a = 0\<rparr>)"
  using self_operations_preserve [of "[2, 2]" "\<lparr>a = 0\<rparr>" "heap_of [0, 1, 1, 0] (0::int)"]
    self_operations_preserve [of "[2, 2]" "\<lparr>a = 0\<rparr>" "heap_of [0, 1, 1, 1] (0::int)"]
    fits_22(1) instantiable_22(1)
  by (simp del: assign.simps array_nd_instantiable.simps)

section \<open>The sliding window\<close>

text \<open>
  C8. With the literal's temporary apart from \<open>Ns\<close>, the sliding-window block returns, its
  check is true, and \<open>Ns\<close> holds \<open>{{0,0},{1,1},{2,2},{2,2}}\<close>: each later window overwrites
  the row it shares with the one before.
\<close>

theorem sliding_window_fill:
  assumes "separate Ns tmp 8"
  shows "\<exists>s'. sliding_window_test Ns tmp s = Some (True, s')
            \<and> flatten [4, 2] Ns s' = [0, 0, 1, 1, 2, 2, 2, 2]"
proof -
  define s1 where "s1 = filled (Ns + 4) 4 2 (filled (Ns + 2) 4 1 (filled Ns 4 0 (materialize Ns (replicate 8 0) s)))"
  define s2 where "s2 = materialize tmp [0, 0, 1, 1, 2, 2, 2, 2] s1"
  have lit: "aggregate_init [4, 2]
      (Braces [Braces [Val 0, Val 0], Braces [Val 1, Val 1], Braces [Val 2, Val 2], Braces [Val 2, Val (2::int)]])
      = Some [0, 0, 1, 1, 2, 2, 2, 2]"
    by (simp add: eval_nat_numeral)
  have zeros: "aggregate_init [4, 2] (Braces []) = Some (replicate 8 (0::int))"
    by simp
  have Ns1: "flatten [4, 2] Ns s1 = [0, 0, 1, 1, 2, 2, 2, 2]"
    by (simp add: flatten_contiguous upt8 s1_def filled_def)
  have tmp2: "flatten [4, 2] tmp s2 = [0, 0, 1, 1, 2, 2, 2, 2]"
    by (simp add: flatten_contiguous upt8 s2_def materialize_eq)
  have "\<And>k. k < 8 \<Longrightarrow> s2 (Ns + k) = s1 (Ns + k)"
    using assms by (auto simp: s2_def materialize_eq separate_def)
  then have Ns2: "flatten [4, 2] Ns s2 = flatten [4, 2] Ns s1"
    by (simp add: flatten_contiguous)
  have "member_eq [4, 2] \<lparr>a = Ns\<rparr> tmp s2 = Some True"
    using operator_eq_flatten [OF fits_42(1), of "\<lparr>a = Ns\<rparr>" "\<lparr>a = tmp\<rparr>" s2] Ns1 Ns2 tmp2
    by (simp add: member_eq_def)
  then have "sliding_window_test Ns tmp s = Some (True, s2)"
    unfolding sliding_window_test_def Let_def lit zeros
    by (simp add: extent_def window_loop s1_def s2_def del: fill.simps materialize.simps)
  then show ?thesis using Ns1 Ns2 by simp
qed

theorem sliding_window_fill_witness:
  "separate 0 8 8
   \<and> (\<exists>s'. sliding_window_test 0 8 (heap_of [] 0) = Some (True, s')
          \<and> flatten [4, 2] 0 s' = [0, 0, 1, 1, 2, 2, 2, 2])"
proof -
  have sep: "separate 0 8 8" by (simp add: separate_def)
  show ?thesis
    using sliding_window_fill [OF sep, of "heap_of [] 0"] sep by simp
qed

section \<open>The handle under the deep operations\<close>

text \<open>
  C9. Whenever \<open>fill\<close> or the deep assignment returns, the wrapper it returns is the one it
  was called on; the deep swap with a raw array returns the wrapper unchanged; \<open>fill\<close> and
  the deep assignment do return when the outer extents are below \<open>2 ^ 32\<close>. The shallow swap
  is the operation that gives the wrapper another handle.
\<close>

theorem deep_operations_keep_handle:
  "(\<forall>w' s'. fill A w e (s::'v heap) = Some (w', s') \<longrightarrow> w' = w)
   \<and> (\<forall>w' s'. assign A w rhs s = Some (w', s') \<longrightarrow> w' = w)
   \<and> fst (swap_array A w b s) = w
   \<and> (fits_unsigned A \<longrightarrow>
        (\<exists>s'. fill A w e s = Some (w, s')) \<and> (\<exists>s'. assign A w rhs s = Some (w, s')))
   \<and> fst (swap_wrapper w y) = w\<lparr>a := a y\<rparr>"
  using fill_total [of A w e s] assign_total [of A w rhs s] fill_handle [of A w e s]
    assign_handle [of A w rhs s]
  by (auto simp: swap_array_def swap_wrapper_def Let_def)

theorem deep_operations_keep_handle_witness:
  "fits_unsigned [2, 2]
   \<and> (\<exists>s'. fill [2, 2] \<lparr>a = 0\<rparr> 7 (heap_of [0, 1, 1, 0] (0::int)) = Some (\<lparr>a = 0\<rparr>, s'))
   \<and> (\<exists>s'. assign [2, 2] \<lparr>a = 0\<rparr> 4 (heap_of [0, 1, 1, 0] (0::int)) = Some (\<lparr>a = 0\<rparr>, s'))
   \<and> a (fst (swap_array [2, 2] \<lparr>a = 0\<rparr> 4 (heap_of [0, 1, 1, 0] (0::int)))) = 0
   \<and> a (fst (swap_wrapper \<lparr>a = 0\<rparr> \<lparr>a = 4\<rparr>)) = 4"
  using deep_operations_keep_handle [of "[2, 2]" "\<lparr>a = 0\<rparr>" 7 "heap_of [0, 1, 1, 0] (0::int)" 4 4 "\<lparr>a = 4\<rparr>"]
    fits_22(1)
  by (simp del: fill.simps assign.simps)

section \<open>The four ways to one element\<close>

text \<open>
  C10. For an index below the outermost extent, \<open>w[I]\<close>, \<open>w.at(I)\<close> and \<open>get<I>(w)\<close> are
  the same address; \<open>w(I)\<close> is that element for rank 1 and otherwise a wrapper whose handle
  is that address, so indexing the wrapper \<open>w(I)\<close> and indexing the subarray \<open>w[I]\<close> reach
  the same addresses; a scalar written through one of the paths is read through every other.
\<close>

theorem access_paths_agree:
  assumes "I < extent A"
  shows "at A w I = Inr (subscript A w I)
       \<and> get I A w = subscript A w I
       \<and> call A w I = (if rank A = 1 then element (subscript A w I)
                       else wrapped \<lparr>a = subscript A w I\<rparr>)
       \<and> (\<forall>J. subscript (remove_extent A) (call_wrapped A w I) J
              = ptr_index (remove_extent (remove_extent A)) (subscript A w I) J)
       \<and> (\<forall>p \<in> {subscript A w I, call_element A w I, projr (at A w I), get I A w}.
          \<forall>q \<in> {subscript A w I, call_element A w I, projr (at A w I), get I A w}.
          \<forall>(s::'v heap) v. (s(p := v)) q = v)"
  using assms
  by (simp add: at_def get_def call_def subscript_def call_element_def call_wrapped_def)

theorem access_paths_agree_witness:
  "2 < extent [3, 2]
   \<and> at [3, 2] \<lparr>a = 0\<rparr> 2 = Inr 4 \<and> get 2 [3, 2] \<lparr>a = 0\<rparr> = 4
   \<and> subscript [3, 2] \<lparr>a = 0\<rparr> 2 = 4
   \<and> call [3, 2] \<lparr>a = 0\<rparr> 2 = wrapped \<lparr>a = 4\<rparr>
   \<and> call [3] \<lparr>a = 0\<rparr> 2 = element 2 \<and> at [3] \<lparr>a = 0\<rparr> 2 = Inr 2"
proof -
  have h: "2 < extent [3, 2]" "2 < extent [3]" by (simp_all add: extent_def)
  have p: "subscript [3, 2] \<lparr>a = 0\<rparr> 2 = 4" "subscript [3] \<lparr>a = 0\<rparr> 2 = 2"
    by (simp_all add: subscript_def ptr_index_def remove_extent_def)
  note T1 = access_paths_agree [OF h(1), of "\<lparr>a = 0\<rparr>"]
  note T2 = access_paths_agree [OF h(2), of "\<lparr>a = 0\<rparr>"]
  show ?thesis
    using T1 [THEN conjunct1] T1 [THEN conjunct2, THEN conjunct1]
      T1 [THEN conjunct2, THEN conjunct2, THEN conjunct1]
      T2 [THEN conjunct1] T2 [THEN conjunct2, THEN conjunct2, THEN conjunct1] h(1)
    unfolding p by (simp add: rank_def)
qed


end
